theory Spec2Isabelle
  imports Main
begin

section \<open>Values on the worker channel\<close>

text \<open>
  Everything that crosses \<^verbatim>\<open>postMessage\<close> is structured-clone data. The handlers only
  read properties of such a value and test its truthiness, so the model keeps the
  constructors those two operations tell apart. Numbers are integers plus \<^verbatim>\<open>NaN\<close>
  (\<^verbatim>\<open>0\<close>, \<^verbatim>\<open>-0\<close> and \<^verbatim>\<open>NaN\<close> are the falsy numbers); an object is its list of own
  properties, and an array, a Map or a Date reads as an object too. Structured-clone data
  holds no functions, so a value is never a thenable.
\<close>

datatype jsval =
    JUndefined
  | JNull
  | JBool bool
  | JNum int
  | JNaN
  | JStr string
  | JObj "(string \<times> jsval) list"

text \<open>\<^verbatim>\<open>if (e)\<close>: JavaScript's ToBoolean.\<close>

fun truthy :: "jsval \<Rightarrow> bool" where
  "truthy JUndefined = False"
| "truthy JNull = False"
| "truthy (JBool b) = b"
| "truthy (JNum n) = (n \<noteq> 0)"
| "truthy JNaN = False"
| "truthy (JStr s) = (s \<noteq> [])"
| "truthy (JObj fs) = True"

datatype error = TypeError | Thrown jsval

text \<open>
  \<^verbatim>\<open>d.k\<close>: reading a property of \<^verbatim>\<open>undefined\<close> or \<^verbatim>\<open>null\<close> throws a TypeError; an
  object yields the property or \<^verbatim>\<open>undefined\<close>; a boolean, number or string has none of the
  properties this module reads (\<^verbatim>\<open>err\<close>, \<^verbatim>\<open>value\<close>, \<^verbatim>\<open>body\<close>, \<^verbatim>\<open>status\<close>,
  \<^verbatim>\<open>headers\<close>), so the read yields \<^verbatim>\<open>undefined\<close>.
\<close>

fun getprop :: "jsval \<Rightarrow> string \<Rightarrow> error + jsval" where
  "getprop JUndefined k = Inl TypeError"
| "getprop JNull k = Inl TypeError"
| "getprop (JObj fs) k = Inr (case map_of fs k of None \<Rightarrow> JUndefined | Some v \<Rightarrow> v)"
| "getprop d k = Inr JUndefined"

section \<open>The module state\<close>

text \<open>
  A promise is pending, fulfilled with a value or rejected with a reason. A
  \<^verbatim>\<open>Resolver\<close> holds the \<^verbatim>\<open>resolve\<close> and \<^verbatim>\<open>reject\<close> closures of one promise
  \<^verbatim>\<open>p\<close> and the message; both closures are identified by the promise they settle.
\<close>

datatype pstate = Pending | Fulfilled jsval | Rejected jsval

record resolver =
  rid :: nat
  msg :: jsval

text \<open>
  \<^verbatim>\<open>resolvers\<close> is the module's array. \<^verbatim>\<open>posted\<close> is what
  \<^verbatim>\<open>endpointWorker.postMessage\<close> has been given, in order. \<^verbatim>\<open>promises\<close> holds the
  promises \<^verbatim>\<open>p\<close> created inside \<^verbatim>\<open>toWorker\<close>, \<^verbatim>\<open>handles\<close> the promises the async
  function \<^verbatim>\<open>toWorker\<close> returns to its callers, both under the same number.
  \<^verbatim>\<open>jobs\<close> is the microtask queue: the suspended \<^verbatim>\<open>await p\<close> continuations whose
  promise has been settled.
\<close>

record state =
  resolvers :: "resolver list"
  posted :: "jsval list"
  promises :: "nat \<rightharpoonup> pstate"
  handles :: "nat \<rightharpoonup> pstate"
  jobs :: "nat list"
  next_id :: nat

definition init :: state where
  "init = \<lparr>resolvers = [], posted = [], promises = Map.empty, handles = Map.empty,
           jobs = [], next_id = 0\<rparr>"

text \<open>
  \<^verbatim>\<open>endpointWorker.postMessage\<close>. The messages of this module are records of strings and
  numbers, which are cloned without a DataCloneError, so the call always succeeds.
\<close>

definition postMessage :: "jsval \<Rightarrow> state \<Rightarrow> state" where
  "postMessage m st = st\<lparr>posted := posted st @ [m]\<rparr>"

text \<open>
  Settling a promise: only a pending promise changes, and its waiting continuation
  becomes a microtask. Calling \<^verbatim>\<open>resolve\<close> or \<^verbatim>\<open>reject\<close> on a settled promise does
  nothing.
\<close>

definition settle :: "nat \<Rightarrow> pstate \<Rightarrow> state \<Rightarrow> state" where
  "settle i out st =
     (if promises st i = Some Pending
      then st\<lparr>promises := (promises st)(i \<mapsto> out), jobs := jobs st @ [i]\<rparr>
      else st)"

definition resolve :: "resolver \<Rightarrow> jsval \<Rightarrow> state \<Rightarrow> state" where
  "resolve r v st = settle (rid r) (Fulfilled v) st"

definition reject :: "resolver \<Rightarrow> jsval \<Rightarrow> state \<Rightarrow> state" where
  "reject r e st = settle (rid r) (Rejected e) st"

section \<open>The channel handlers\<close>

text \<open>
  A handler returns the exception it threw, if any, and the state it leaves. Every throw
  below happens before the handler has assigned anything. The event that \<^verbatim>\<open>onerror\<close>
  and \<^verbatim>\<open>onmessageerror\<close> receive and throw is kept as a value.
\<close>

definition onmessageerror :: "jsval \<Rightarrow> state \<Rightarrow> error option \<times> state" where
  "onmessageerror e st = (Some (Thrown e), st)"

definition onerror :: "jsval \<Rightarrow> state \<Rightarrow> error option \<times> state" where
  "onerror e st = (Some (Thrown e), st)"

text \<open>
  \<^verbatim>\<open>onmessage\<close>, applied to \<^verbatim>\<open>event.data\<close>. \<^verbatim>\<open>resolvers[0]\<close> of the empty array is
  \<^verbatim>\<open>undefined\<close>, and calling a method of it throws.
\<close>

definition onmessage :: "jsval \<Rightarrow> state \<Rightarrow> error option \<times> state" where
  "onmessage d st =
     (case getprop d ''err'' of
        Inl x \<Rightarrow> (Some x, st)
      | Inr e \<Rightarrow>
          if truthy e then
            (case resolvers st of
               [] \<Rightarrow> (Some TypeError, st)
             | r # _ \<Rightarrow> (None, reject r e st))
          else
            (case resolvers st of
               [] \<Rightarrow> (Some TypeError, st)
             | r # _ \<Rightarrow>
                 (case getprop d ''value'' of
                    Inl x \<Rightarrow> (Some x, st)
                  | Inr v \<Rightarrow> (None, resolve r v st))))"

section \<open>toWorker\<close>

text \<open>
  The part of \<^verbatim>\<open>toWorker\<close> that runs at the call, up to \<^verbatim>\<open>await p\<close>: the promise
  executor pushes the resolver, and the message is posted when the array then has one
  element. The result is the number of the returned promise.
\<close>

definition toWorker :: "jsval \<Rightarrow> state \<Rightarrow> nat \<times> state" where
  "toWorker m st =
     (let i = next_id st;
          st1 = st\<lparr>resolvers := resolvers st @ [\<lparr>rid = i, msg = m\<rparr>],
                   promises := (promises st)(i \<mapsto> Pending),
                   handles := (handles st)(i \<mapsto> Pending),
                   next_id := Suc i\<rparr>;
          st2 = (if length (resolvers st1) = 1
                 then postMessage (msg (resolvers st1 ! 0)) st1 else st1)
      in (i, st2))"

text \<open>\<^verbatim>\<open>Array.prototype.shift\<close>: drops the first element; the empty array stays empty.\<close>

definition shift :: "'a list \<Rightarrow> 'a list" where
  "shift xs = (case xs of [] \<Rightarrow> [] | x # r \<Rightarrow> r)"

text \<open>
  The rest of \<^verbatim>\<open>toWorker\<close>, run as a microtask once \<^verbatim>\<open>p\<close> is settled: the
  \<^verbatim>\<open>finally\<close> block, then the returned promise takes the outcome of \<^verbatim>\<open>p\<close>
  (\<^verbatim>\<open>return await p\<close> returns the value or rethrows the reason).
\<close>

definition toWorker_resume :: "nat \<Rightarrow> state \<Rightarrow> state" where
  "toWorker_resume i st =
     (let st1 = st\<lparr>resolvers := shift (resolvers st)\<rparr>;
          st2 = (if length (resolvers st1) \<noteq> 0
                 then postMessage (msg (resolvers st1 ! 0)) st1 else st1)
      in case promises st2 i of
           Some (Fulfilled v) \<Rightarrow> st2\<lparr>handles := (handles st2)(i \<mapsto> Fulfilled v)\<rparr>
         | Some (Rejected e) \<Rightarrow> st2\<lparr>handles := (handles st2)(i \<mapsto> Rejected e)\<rparr>
         | _ \<Rightarrow> st2)"

text \<open>Running the first microtask of the queue.\<close>

definition run_job :: "state \<Rightarrow> state" where
  "run_job st =
     (case jobs st of [] \<Rightarrow> st | i # js \<Rightarrow> toWorker_resume i (st\<lparr>jobs := js\<rparr>))"

section \<open>The exported functions\<close>

definition endOfRequest :: "int \<Rightarrow> state \<Rightarrow> state" where
  "endOfRequest n st = postMessage (JObj [(''cmd'', JStr ''endOfRequest''), (''id'', JNum n)]) st"

text \<open>
  \<^verbatim>\<open>callHandler\<close> awaits \<^verbatim>\<open>toWorker\<close> and then builds its result from the value
  \<^verbatim>\<open>res\<close>. The variable \<^verbatim>\<open>body\<close> that the closure \<^verbatim>\<open>read\<close> captures is a field
  of the result.
\<close>

definition callHandler :: "string \<Rightarrow> string \<Rightarrow> int \<Rightarrow> state \<Rightarrow> nat \<times> state" where
  "callHandler path apiVersion n st =
     toWorker (JObj [(''cmd'', JStr ''callHandler''), (''path'', JStr path),
                     (''apiVersion'', JStr apiVersion), (''id'', JNum n)]) st"

record response =
  status :: jsval
  headers :: jsval
  body :: jsval

definition callHandler_resume :: "jsval \<Rightarrow> error + response" where
  "callHandler_resume res =
     (case getprop res ''body'' of
        Inl x \<Rightarrow> Inl x
      | Inr b \<Rightarrow>
          (case getprop res ''status'' of
             Inl x \<Rightarrow> Inl x
           | Inr s \<Rightarrow>
               (case getprop res ''headers'' of
                  Inl x \<Rightarrow> Inl x
                | Inr h \<Rightarrow> Inr \<lparr>status = s, headers = h, body = b\<rparr>)))"

definition read :: "response \<Rightarrow> jsval \<times> response" where
  "read r = (body r, r\<lparr>body := JUndefined\<rparr>)"

text \<open>The value of the \<open>n\<close>-th invocation of \<^verbatim>\<open>read\<close>, counted from 0.\<close>

fun read_nth :: "nat \<Rightarrow> response \<Rightarrow> jsval" where
  "read_nth 0 r = fst (read r)"
| "read_nth (Suc n) r = read_nth n (snd (read r))"

section \<open>Runs of the module\<close>

text \<open>
  What happens to the module, one event at a time: a caller invokes \<^verbatim>\<open>toWorker\<close>, the
  worker's reply is delivered to \<^verbatim>\<open>onmessage\<close>, or the next microtask runs. A run stops
  at the first exception, which nothing in the module catches.
\<close>

datatype event = Call jsval | Reply jsval | Resume

fun step :: "event \<Rightarrow> state \<Rightarrow> error option \<times> state" where
  "step (Call m) st = (None, snd (toWorker m st))"
| "step (Reply d) st = onmessage d st"
| "step Resume st = (None, run_job st)"

fun run :: "event list \<Rightarrow> state \<Rightarrow> error option \<times> state" where
  "run [] st = (None, st)"
| "run (ev # evs) st =
     (case step ev st of
        (Some x, st') \<Rightarrow> (Some x, st')
      | (None, st') \<Rightarrow> run evs st')"

fun calls :: "event list \<Rightarrow> jsval list" where
  "calls [] = []"
| "calls (Call m # evs) = m # calls evs"
| "calls (ev # evs) = calls evs"

fun replies :: "event list \<Rightarrow> jsval list" where
  "replies [] = []"
| "replies (Reply d # evs) = d # replies evs"
| "replies (ev # evs) = replies evs"

fun resumes :: "event list \<Rightarrow> nat" where
  "resumes [] = 0"
| "resumes (Resume # evs) = Suc (resumes evs)"
| "resumes (ev # evs) = resumes evs"

text \<open>
  The environment the module is written for, with \<open>n\<close> calls made, \<open>r\<close> replies delivered
  and \<open>k\<close> continuations run so far. The worker answers only a request it holds and has
  not answered, and the event loop runs the continuation of a reply before it delivers
  the next message: a reply comes only when every earlier reply has been followed by its
  continuation (\<open>r = k\<close>) and a call is waiting (\<open>k < n\<close>), and it is an object or a
  primitive, not \<^verbatim>\<open>undefined\<close> or \<^verbatim>\<open>null\<close>. A continuation runs only when a reply
  has queued it (\<open>k < r\<close>). Calls may come at any time.
\<close>

fun nullish :: "jsval \<Rightarrow> bool" where
  "nullish JUndefined = True"
| "nullish JNull = True"
| "nullish d = False"

fun protocol :: "nat \<Rightarrow> nat \<Rightarrow> nat \<Rightarrow> event list \<Rightarrow> bool" where
  "protocol n r k [] = True"
| "protocol n r k (Call m # evs) = protocol (Suc n) r k evs"
| "protocol n r k (Reply d # evs) = (r = k \<and> k < n \<and> \<not> nullish d \<and> protocol n (Suc r) k evs)"
| "protocol n r k (Resume # evs) = (k < r \<and> protocol n r (Suc k) evs)"

definition well_behaved :: "event list \<Rightarrow> bool" where
  "well_behaved evs = protocol 0 0 0 evs"

text \<open>
  The outcome a reply encodes, in the words of the specification: a reply that carries an
  error indicator, a truthy \<^verbatim>\<open>err\<close> property, rejects with that error, and a reply
  without one resolves with the \<^verbatim>\<open>value\<close> it carries. \<^verbatim>\<open>undefined\<close> and
  \<^verbatim>\<open>null\<close> carry neither and encode no outcome.
\<close>

definition outcome_of :: "jsval \<Rightarrow> pstate" where
  "outcome_of d =
     (case getprop d ''err'' of
        Inl x \<Rightarrow> Pending
      | Inr e \<Rightarrow>
          if truthy e then Rejected e
          else (case getprop d ''value'' of Inl x \<Rightarrow> Pending | Inr v \<Rightarrow> Fulfilled v))"

text \<open>
  The promises that the calls of a run return, in the order of the calls.
\<close>

fun handles_returned :: "event list \<Rightarrow> state \<Rightarrow> nat list" where
  "handles_returned [] st = []"
| "handles_returned (Call m # evs) st =
     fst (toWorker m st) # handles_returned evs (snd (toWorker m st))"
| "handles_returned (ev # evs) st =
     (case step ev st of
        (Some x, st') \<Rightarrow> []
      | (None, st') \<Rightarrow> handles_returned evs st')"

text \<open>Replies processed one after the other: each is delivered and its continuation runs.\<close>

definition deliveries :: "jsval list \<Rightarrow> event list" where
  "deliveries ds = concat (map (\<lambda>d. [Reply d, Resume]) ds)"

text \<open>
  The state after the calls \<open>cs\<close>, the replies \<open>rs\<close> and \<open>k\<close> continuations: the array
  holds the calls from the \<open>k\<close>-th on, the first \<open>k + 1\<close> messages have been posted, the
  promise of a call is settled by its reply and the returned promise by its continuation.
\<close>

definition sequenced :: "jsval list \<Rightarrow> jsval list \<Rightarrow> nat \<Rightarrow> state \<Rightarrow> bool" where
  "sequenced cs rs k st \<longleftrightarrow>
     k \<le> length rs \<and> length rs \<le> Suc k \<and> length rs \<le> length cs \<and>
     (\<forall>d \<in> set rs. \<not> nullish d) \<and>
     next_id st = length cs \<and>
     resolvers st = map (\<lambda>i. \<lparr>rid = i, msg = cs ! i\<rparr>) [k..<length cs] \<and>
     posted st = take (Suc k) cs \<and>
     (\<forall>i. promises st i =
        (if i < length rs then Some (outcome_of (rs ! i))
         else if i < length cs then Some Pending else None)) \<and>
     (\<forall>i. handles st i =
        (if i < k then Some (outcome_of (rs ! i))
         else if i < length cs then Some Pending else None)) \<and>
     jobs st = [k..<length rs]"

section \<open>The state of a run\<close>

lemma sequenced_init: "sequenced [] [] 0 init"
  by (simp add: sequenced_def init_def)

lemma outcome_of_settled: "\<not> nullish d \<Longrightarrow> outcome_of d \<noteq> Pending"
  by (cases d) (auto simp: outcome_of_def)

lemma getprop_ok: "\<not> nullish d \<Longrightarrow> \<exists>v. getprop d k = Inr v"
  by (cases d) auto

lemma sequenced_call:
  assumes "sequenced cs rs k st"
  shows "sequenced (cs @ [m]) rs k (snd (toWorker m st))"
  using assms
  by (simp add: sequenced_def toWorker_def Let_def postMessage_def nth_append)

lemma sequenced_reply:
  assumes "sequenced cs rs k st" "length rs = k" "k < length cs" "\<not> nullish d"
  shows "fst (onmessage d st) = None \<and> sequenced cs (rs @ [d]) k (snd (onmessage d st))"
proof -
  obtain e where e: "getprop d ''err'' = Inr e"
    using getprop_ok [OF assms(4)] by blast
  obtain v where v: "getprop d ''value'' = Inr v"
    using getprop_ok [OF assms(4)] by blast
  have hd: "resolvers st =
      \<lparr>rid = k, msg = cs ! k\<rparr> # map (\<lambda>i. \<lparr>rid = i, msg = cs ! i\<rparr>) [Suc k..<length cs]"
    using assms by (simp add: sequenced_def upt_conv_Cons)
  have pk: "promises st k = Some Pending"
    using assms by (simp add: sequenced_def)
  have om: "onmessage d st = (None, settle k (outcome_of d) st)"
    by (simp add: onmessage_def e v hd outcome_of_def reject_def resolve_def)
  have "sequenced cs (rs @ [d]) k (settle k (outcome_of d) st)"
    using assms pk by (auto simp: sequenced_def settle_def nth_append)
  with om show ?thesis by simp
qed

lemma sequenced_resume:
  assumes "sequenced cs rs k st" "k < length rs"
  shows "sequenced cs rs (Suc k) (run_job st)"
proof -
  have len: "length rs = Suc k" "k < length cs"
    using assms by (auto simp: sequenced_def)
  have jb: "jobs st = [k]"
    using assms len by (simp add: sequenced_def)
  have rs: "shift (resolvers st) = map (\<lambda>i. \<lparr>rid = i, msg = cs ! i\<rparr>) [Suc k..<length cs]"
    using assms len by (simp add: sequenced_def shift_def upt_conv_Cons)
  have pk: "promises st k = Some (outcome_of (rs ! k))"
    using assms by (simp add: sequenced_def)
  have "\<not> nullish (rs ! k)"
    using assms by (simp add: sequenced_def)
  then have "outcome_of (rs ! k) \<noteq> Pending"
    by (rule outcome_of_settled)
  then have rj: "run_job st =
      (let st1 = st\<lparr>jobs := [], resolvers := shift (resolvers st)\<rparr>;
           st2 = (if Suc k < length cs then postMessage (cs ! Suc k) st1 else st1)
       in st2\<lparr>handles := (handles st2)(k \<mapsto> outcome_of (rs ! k))\<rparr>)"
    using pk jb rs
    by (cases "outcome_of (rs ! k)")
      (simp_all add: run_job_def toWorker_resume_def Let_def postMessage_def upt_conv_Cons)
  show ?thesis
  proof (cases "Suc k < length cs")
    case True
    then show ?thesis
      using assms len rs
      by (auto simp: rj sequenced_def Let_def postMessage_def take_Suc_conv_app_nth)
  next
    case False
    then show ?thesis
      using assms len rs
      by (auto simp: rj sequenced_def Let_def postMessage_def)
  qed
qed

lemma run_sequenced:
  "protocol (length cs) (length rs) k evs \<Longrightarrow> sequenced cs rs k st \<Longrightarrow>
   fst (run evs st) = None \<and>
   sequenced (cs @ calls evs) (rs @ replies evs) (k + resumes evs) (snd (run evs st))"
proof (induction evs arbitrary: cs rs k st)
  case Nil
  then show ?case by simp
next
  case (Cons ev evs)
  show ?case
  proof (cases ev)
    case (Call m)
    have "protocol (length (cs @ [m])) (length rs) k evs"
      using Cons.prems(1) Call by simp
    from Cons.IH [OF this sequenced_call [OF Cons.prems(2)]]
    show ?thesis using Call by simp
  next
    case (Reply d)
    have p: "length rs = k" "k < length cs" "\<not> nullish d"
      "protocol (length cs) (length (rs @ [d])) k evs"
      using Cons.prems(1) Reply by auto
    note s = sequenced_reply [OF Cons.prems(2) p(1) p(2) p(3)]
    from Cons.IH [OF p(4) conjunct2 [OF s]] s
    show ?thesis using Reply by (simp add: split_beta split: option.splits)
  next
    case Resume
    have p: "k < length rs" "protocol (length cs) (length rs) (Suc k) evs"
      using Cons.prems(1) Resume by simp_all
    from Cons.IH [OF p(2) sequenced_resume [OF Cons.prems(2) p(1)]]
    show ?thesis using Resume by simp
  qed
qed

lemma well_behaved_sequenced:
  assumes "well_behaved evs"
  shows "fst (run evs init) = None"
    and "sequenced (calls evs) (replies evs) (resumes evs) (snd (run evs init))"
  using run_sequenced [of "[]" "[]" 0 evs init] assms sequenced_init
  by (simp_all add: well_behaved_def)

lemma protocol_append:
  "protocol n r k (evs @ evs') \<longleftrightarrow>
     protocol n r k evs \<and>
     protocol (n + length (calls evs)) (r + length (replies evs)) (k + resumes evs) evs'"
proof (induction evs arbitrary: n r k)
  case Nil
  show ?case by simp
next
  case (Cons ev evs)
  show ?case by (cases ev) (auto simp: Cons.IH)
qed

lemma calls_append: "calls (evs @ evs') = calls evs @ calls evs'"
  by (induction evs rule: calls.induct) simp_all

lemma replies_append: "replies (evs @ evs') = replies evs @ replies evs'"
  by (induction evs rule: replies.induct) simp_all

lemma resumes_append: "resumes (evs @ evs') = resumes evs + resumes evs'"
  by (induction evs rule: resumes.induct) simp_all

lemma run_append:
  "fst (run evs st) = None \<Longrightarrow> run (evs @ evs') st = run evs' (snd (run evs st))"
  by (induction evs arbitrary: st) (auto split: prod.splits option.splits)

lemma calls_map_Call: "calls (map Call ms) = ms" "replies (map Call ms) = []" "resumes (map Call ms) = 0"
  by (induction ms) simp_all

lemma deliveries_counts:
  "calls (deliveries ds) = []" "replies (deliveries ds) = ds" "resumes (deliveries ds) = length ds"
  by (induction ds) (simp_all add: deliveries_def)

lemma protocol_calls: "protocol n r k (map Call ms)"
  by (induction ms arbitrary: n) simp_all

lemma protocol_deliveries:
  "k + length ds \<le> n \<Longrightarrow> \<forall>d \<in> set ds. \<not> nullish d \<Longrightarrow> protocol n k k (deliveries ds)"
  by (induction ds arbitrary: k) (auto simp: deliveries_def)

lemma handles_returned_sequenced:
  "protocol (length cs) (length rs) k evs \<Longrightarrow> sequenced cs rs k st \<Longrightarrow>
   handles_returned evs st = [length cs ..< length cs + length (calls evs)]"
proof (induction evs arbitrary: cs rs k st)
  case Nil
  then show ?case by simp
next
  case (Cons ev evs)
  show ?case
  proof (cases ev)
    case (Call m)
    have "protocol (length (cs @ [m])) (length rs) k evs"
      using Cons.prems(1) Call by simp
    from Cons.IH [OF this sequenced_call [OF Cons.prems(2)]]
    have "handles_returned evs (snd (toWorker m st)) =
        [Suc (length cs) ..< Suc (length cs) + length (calls evs)]"
      by simp
    moreover have "fst (toWorker m st) = length cs"
      using Cons.prems(2) by (simp add: toWorker_def Let_def sequenced_def)
    moreover have "[length cs ..< length cs + Suc (length (calls evs))] =
        length cs # [Suc (length cs) ..< Suc (length cs) + length (calls evs)]"
      by (subst upt_rec) simp
    ultimately show ?thesis using Call
      by (simp del: upt_Suc)
  next
    case (Reply d)
    have p: "length rs = k" "k < length cs" "\<not> nullish d"
      "protocol (length cs) (length (rs @ [d])) k evs"
      using Cons.prems(1) Reply by auto
    note s = sequenced_reply [OF Cons.prems(2) p(1) p(2) p(3)]
    from Cons.IH [OF p(4) conjunct2 [OF s]] s
    show ?thesis using Reply by (simp add: split_beta split: option.splits)
  next
    case Resume
    have p: "k < length rs" "protocol (length cs) (length rs) (Suc k) evs"
      using Cons.prems(1) Resume by simp_all
    from Cons.IH [OF p(2) sequenced_resume [OF Cons.prems(2) p(1)]]
    show ?thesis using Resume by simp
  qed
qed

lemma well_behaved_handles_returned:
  "well_behaved evs \<Longrightarrow> handles_returned evs init = [0 ..< length (calls evs)]"
  using handles_returned_sequenced [of "[]" "[]" 0 evs init] sequenced_init
  by (simp add: well_behaved_def)

lemma well_behaved_prefix: "well_behaved (evs @ evs') \<Longrightarrow> well_behaved evs"
  by (simp add: well_behaved_def protocol_append)

lemma outcome_of_err:
  "getprop d ''err'' = Inr e \<Longrightarrow> truthy e \<Longrightarrow> outcome_of d = Rejected e"
  by (simp add: outcome_of_def)

lemma outcome_of_value:
  "getprop d ''err'' = Inr e \<Longrightarrow> \<not> truthy e \<Longrightarrow> getprop d ''value'' = Inr v \<Longrightarrow>
   outcome_of d = Fulfilled v"
  by (simp add: outcome_of_def)

lemma outcome_of_Rejected:
  "outcome_of d = Rejected e \<Longrightarrow> getprop d ''err'' = Inr e \<and> truthy e"
  by (auto simp: outcome_of_def split: sum.splits if_splits)

text \<open>
  In a state that a well-behaved run has reached, with a resolver at the head of the
  array and no continuation waiting, a reply settles the promise of the head with the
  outcome it encodes, and the continuation hands that outcome to the returned promise.
\<close>

lemma reply_to_head:
  assumes "well_behaved evs" and "snd (run evs init) = st"
    and "resolvers st = r # q" and "jobs st = []" and "\<not> nullish d"
  shows "rid r = length (replies evs)"
    and "fst (onmessage d st) = None"
    and "promises (snd (onmessage d st)) (rid r) = Some (outcome_of d)"
    and "handles (run_job (snd (onmessage d st))) (rid r) = Some (outcome_of d)"
    and "well_behaved (evs @ [Reply d, Resume])"
proof -
  let ?cs = "calls evs" and ?rs = "replies evs" and ?k = "resumes evs"
  have s: "sequenced ?cs ?rs ?k st"
    using well_behaved_sequenced(2) [OF assms(1)] assms(2) by simp
  have "[?k..<length ?rs] = []" "?k \<le> length ?rs"
    using s assms(4) by (simp_all add: sequenced_def)
  then have k: "length ?rs = ?k"
    by auto
  have n: "?k < length ?cs"
  proof (rule ccontr)
    assume "\<not> ?k < length ?cs"
    then have "resolvers st = []"
      using s by (simp add: sequenced_def)
    with assms(3) show False by simp
  qed
  have "resolvers st = \<lparr>rid = ?k, msg = ?cs ! ?k\<rparr> #
      map (\<lambda>i. \<lparr>rid = i, msg = ?cs ! i\<rparr>) [Suc ?k..<length ?cs]"
    using s n by (simp add: sequenced_def upt_conv_Cons)
  then have r: "rid r = ?k"
    using assms(3) by auto
  note t = sequenced_reply [OF s k n assms(5)]
  have u: "sequenced ?cs (?rs @ [d]) (Suc ?k) (run_job (snd (onmessage d st)))"
    using sequenced_resume [OF conjunct2 [OF t]] k by simp
  have nd: "(?rs @ [d]) ! ?k = d"
    using k nth_append_length [of ?rs d "[]"] by simp
  show "rid r = length ?rs" using r k by simp
  show "fst (onmessage d st) = None" using t by simp
  show "promises (snd (onmessage d st)) (rid r) = Some (outcome_of d)"
    using conjunct2 [OF t] r k nd by (simp add: sequenced_def)
  show "handles (run_job (snd (onmessage d st))) (rid r) = Some (outcome_of d)"
    using u r k nd by (simp add: sequenced_def)
  show "well_behaved (evs @ [Reply d, Resume])"
    using assms(1) assms(5) k n by (simp add: well_behaved_def protocol_append)
qed

lemma well_behaved_scenario:
  assumes "length ds \<le> length ms" "\<forall>d \<in> set ds. \<not> nullish d"
  shows "well_behaved (map Call ms @ deliveries ds)"
  using assms protocol_deliveries [of 0 ds "length ms"]
  by (simp add: well_behaved_def protocol_append protocol_calls calls_map_Call)

lemmas exec_defs = toWorker_def init_def Let_def postMessage_def onmessage_def resolve_def
  reject_def settle_def run_job_def toWorker_resume_def shift_def

lemma read_after_first: "body r = JUndefined \<Longrightarrow> read_nth n r = JUndefined"
  by (induction n arbitrary: r) (simp_all add: read_def)

section \<open>The claims\<close>

text \<open>
  C1 (single-flight dispatch). \<^verbatim>\<open>toWorker\<close> posts its message exactly when the array
  was empty before the push, in any state. Along every well-behaved run the posted
  messages are the first \<open>k + 1\<close> calls, in order, where \<open>k\<close> is the number of replies
  processed so far, so at most one posted request is without a reply. In particular,
  after the calls \<open>ms\<close> with no reply only the first is posted, and each of the replies
  \<open>ds\<close> processed after them posts the next call that is queued; once every call is
  posted a reply posts nothing.
\<close>

theorem single_flight:
  "posted (snd (toWorker m st)) = posted st @ (if resolvers st = [] then [m] else [])
   \<and> (well_behaved evs \<longrightarrow>
        fst (run evs init) = None
      \<and> posted (snd (run evs init)) = take (Suc (resumes evs)) (calls evs)
      \<and> length (posted (snd (run evs init))) \<le> Suc (length (replies evs)))
   \<and> (length ds \<le> length ms \<and> (\<forall>d \<in> set ds. \<not> nullish d) \<longrightarrow>
        posted (snd (run (map Call ms @ deliveries ds) init)) = take (Suc (length ds)) ms)"
proof (intro conjI impI)
  show "posted (snd (toWorker m st)) = posted st @ (if resolvers st = [] then [m] else [])"
    by (simp add: toWorker_def Let_def postMessage_def)
next
  assume wb: "well_behaved evs"
  note s = well_behaved_sequenced [OF wb]
  show "fst (run evs init) = None" by (rule s(1))
  show p: "posted (snd (run evs init)) = take (Suc (resumes evs)) (calls evs)"
    using s(2) by (simp add: sequenced_def)
  have "resumes evs \<le> length (replies evs)"
    using s(2) by (simp add: sequenced_def)
  then show "length (posted (snd (run evs init))) \<le> Suc (length (replies evs))"
    by (simp add: p)
next
  assume a: "length ds \<le> length ms \<and> (\<forall>d \<in> set ds. \<not> nullish d)"
  then have "well_behaved (map Call ms @ deliveries ds)"
    by (simp add: well_behaved_scenario)
  from well_behaved_sequenced(2) [OF this]
  show "posted (snd (run (map Call ms @ deliveries ds) init)) = take (Suc (length ds)) ms"
    by (simp add: sequenced_def calls_append resumes_append calls_map_Call deliveries_counts)
qed

theorem single_flight_witness:
  "posted (snd (toWorker (JStr ''Y'') (snd (toWorker (JStr ''X'') init)))) = [JStr ''X'']
   \<and> well_behaved [Call (JStr ''X''), Call (JStr ''Y''), Call (JStr ''Z'')]
   \<and> posted (snd (run [Call (JStr ''X''), Call (JStr ''Y''), Call (JStr ''Z'')] init)) = [JStr ''X'']
   \<and> posted (snd (run (map Call [JStr ''X'', JStr ''Y'', JStr ''Z'']
          @ deliveries [JObj [(''value'', JNum 1)]]) init)) = [JStr ''X'', JStr ''Y'']"
proof -
  have wb: "well_behaved [Call (JStr ''X''), Call (JStr ''Y''), Call (JStr ''Z'')]"
    by (simp add: well_behaved_def)
  have h: "length [JObj [(''value'', JNum 1)]] \<le> length [JStr ''X'', JStr ''Y'', JStr ''Z'']
      \<and> (\<forall>d \<in> set [JObj [(''value'', JNum 1)]]. \<not> nullish d)"
    by simp
  have x: "posted (snd (toWorker (JStr ''X'') init)) = [JStr ''X'']"
       "resolvers (snd (toWorker (JStr ''X'') init)) \<noteq> []"
    by (simp_all add: toWorker_def init_def Let_def postMessage_def)
  show ?thesis
    using single_flight [of "JStr ''Y''" "snd (toWorker (JStr ''X'') init)"
        "[Call (JStr ''X''), Call (JStr ''Y''), Call (JStr ''Z'')]"
        "[JObj [(''value'', JNum 1)]]" "[JStr ''X'', JStr ''Y'', JStr ''Z'']"] wb h x
    by simp
qed

text \<open>
  C2 (FIFO correlation). In every well-behaved run, whatever the interleaving of calls and
  replies, the promise returned by the \<open>i\<close>-th call holds, once the \<open>i\<close>-th reply has been
  processed, exactly the outcome that the \<open>i\<close>-th reply encodes, and it is settled.
\<close>

theorem fifo_correlation:
  assumes "well_behaved evs" and "i < resumes evs"
  shows "i < length (calls evs) \<and> i < length (replies evs)
    \<and> handles (snd (run evs init)) (handles_returned evs init ! i)
        = Some (outcome_of (replies evs ! i))
    \<and> outcome_of (replies evs ! i) \<noteq> Pending"
proof -
  have s: "sequenced (calls evs) (replies evs) (resumes evs) (snd (run evs init))"
    by (rule well_behaved_sequenced(2) [OF assms(1)])
  have b: "i < length (replies evs)" "i < length (calls evs)"
    using s assms(2) by (auto simp: sequenced_def)
  have "\<not> nullish (replies evs ! i)"
    using s b(1) by (simp add: sequenced_def)
  then have "outcome_of (replies evs ! i) \<noteq> Pending"
    by (rule outcome_of_settled)
  moreover have "handles_returned evs init ! i = i"
    using b(2) by (simp add: well_behaved_handles_returned [OF assms(1)])
  moreover have "handles (snd (run evs init)) i = Some (outcome_of (replies evs ! i))"
    using s assms(2) by (simp add: sequenced_def)
  ultimately show ?thesis using b by simp
qed

theorem fifo_correlation_witness:
  "well_behaved [Call (JStr ''X''), Call (JStr ''Y''), Reply (JObj [(''value'', JNum 1)]), Resume,
      Reply (JObj [(''err'', JStr ''E1'')]), Resume]
   \<and> handles (snd (run [Call (JStr ''X''), Call (JStr ''Y''), Reply (JObj [(''value'', JNum 1)]),
        Resume, Reply (JObj [(''err'', JStr ''E1'')]), Resume] init)) 1
       = Some (Rejected (JStr ''E1''))"
proof -
  let ?evs = "[Call (JStr ''X''), Call (JStr ''Y''), Reply (JObj [(''value'', JNum 1)]), Resume,
      Reply (JObj [(''err'', JStr ''E1'')]), Resume]"
  have wb: "well_behaved ?evs"
    by (simp add: well_behaved_def)
  have i: "1 < resumes ?evs"
    by simp
  have h: "handles_returned ?evs init ! 1 = 1"
    by (simp add: toWorker_def init_def Let_def postMessage_def onmessage_def resolve_def
        reject_def settle_def run_job_def toWorker_resume_def shift_def)
  have o: "outcome_of (replies ?evs ! 1) = Rejected (JStr ''E1'')"
    by (simp add: outcome_of_def)
  show ?thesis
    using fifo_correlation [OF wb i] wb h o by simp
qed

text \<open>
  C3 (error/success fidelity), as the code has it. The claim counts a reply with an
  \<^verbatim>\<open>err\<close> field as carrying an error indicator and speaks of every reply; the code
  tests the truthiness of \<^verbatim>\<open>err\<close> and reads a property of the reply first. So the
  statement is for a reply that is not \<^verbatim>\<open>undefined\<close> or \<^verbatim>\<open>null\<close>, delivered in a
  state a well-behaved run has reached, with the resolver \<open>r\<close> at the head of the array
  and no continuation left to run. With a truthy \<^verbatim>\<open>err\<close> property the promise of
  \<open>r\<close> and the promise returned to the caller are rejected with that value, hence not
  fulfilled; with a falsy or absent one they are fulfilled with the \<^verbatim>\<open>value\<close> property.
\<close>

theorem error_success_fidelity:
  assumes "well_behaved evs" and "snd (run evs init) = st"
    and "resolvers st = r # q" and "jobs st = []" and "\<not> nullish d"
  shows "\<exists>e. getprop d ''err'' = Inr e \<and> fst (onmessage d st) = None
    \<and> (truthy e \<longrightarrow>
          promises (snd (onmessage d st)) (rid r) = Some (Rejected e)
        \<and> handles (run_job (snd (onmessage d st))) (rid r) = Some (Rejected e))
    \<and> (\<not> truthy e \<longrightarrow>
          (\<exists>v. getprop d ''value'' = Inr v
             \<and> promises (snd (onmessage d st)) (rid r) = Some (Fulfilled v)
             \<and> handles (run_job (snd (onmessage d st))) (rid r) = Some (Fulfilled v)))"
proof -
  obtain e where e: "getprop d ''err'' = Inr e"
    using getprop_ok [OF assms(5)] by blast
  obtain v where v: "getprop d ''value'' = Inr v"
    using getprop_ok [OF assms(5)] by blast
  note h = reply_to_head [OF assms]
  show ?thesis
    using e v h(2) h(3) h(4) by (auto simp: outcome_of_err outcome_of_value)
qed

theorem error_success_fidelity_witness:
  "promises (snd (onmessage (JObj [(''err'', JObj [(''code'', JStr ''E1'')])])
       (snd (run [Call (JStr ''X'')] init)))) 0
     = Some (Rejected (JObj [(''code'', JStr ''E1'')]))
   \<and> handles (run_job (snd (onmessage (JObj [(''value'', JNum 1)])
       (snd (run [Call (JStr ''X'')] init))))) 0
     = Some (Fulfilled (JNum 1))"
proof -
  let ?st = "snd (run [Call (JStr ''X'')] init)"
  have wb: "well_behaved [Call (JStr ''X'')]"
    by (simp add: well_behaved_def)
  have r: "resolvers ?st = \<lparr>rid = 0, msg = JStr ''X''\<rparr> # []"
    by (simp add: toWorker_def init_def Let_def postMessage_def)
  have j: "jobs ?st = []"
    by (simp add: toWorker_def init_def Let_def postMessage_def)
  have n: "\<not> nullish (JObj [(''err'', JObj [(''code'', JStr ''E1'')])])"
    "\<not> nullish (JObj [(''value'', JNum 1)])"
    by simp_all
  show ?thesis
    using error_success_fidelity [OF wb refl r j n(1)]
      error_success_fidelity [OF wb refl r j n(2)]
    by simp
qed

text \<open>
  The claim as it is written fails at two replies to the single queued call \<^verbatim>\<open>X\<close>.
  The reply \<^verbatim>\<open>{err: 0, value: 5}\<close> carries the field \<^verbatim>\<open>err\<close>, and the promises are
  fulfilled with 5, not rejected. The reply \<^verbatim>\<open>null\<close> carries no error indicator, and
  the handler throws a TypeError and leaves both promises pending instead of resolving.
\<close>

theorem error_success_fidelity_counterexample:
  "resolvers (snd (run [Call (JStr ''X'')] init)) = [\<lparr>rid = 0, msg = JStr ''X''\<rparr>]
   \<and> getprop (JObj [(''err'', JNum 0), (''value'', JNum 5)]) ''err'' = Inr (JNum 0)
   \<and> promises (snd (onmessage (JObj [(''err'', JNum 0), (''value'', JNum 5)])
         (snd (run [Call (JStr ''X'')] init)))) 0 = Some (Fulfilled (JNum 5))
   \<and> handles (run_job (snd (onmessage (JObj [(''err'', JNum 0), (''value'', JNum 5)])
         (snd (run [Call (JStr ''X'')] init))))) 0 = Some (Fulfilled (JNum 5))
   \<and> onmessage JNull (snd (run [Call (JStr ''X'')] init))
         = (Some TypeError, snd (run [Call (JStr ''X'')] init))
   \<and> promises (snd (run [Call (JStr ''X'')] init)) 0 = Some Pending
   \<and> handles (snd (run [Call (JStr ''X'')] init)) 0 = Some Pending"
  by (simp add: exec_defs)

text \<open>
  C4 (protocol violation on the empty queue). When the array is empty, \<^verbatim>\<open>onmessage\<close>
  throws a TypeError for every reply, whatever it carries, and leaves the state as it
  was: no promise is settled and nothing is posted. Nothing in the module catches the
  exception, so the run ends with it.
\<close>

theorem reply_on_empty_queue:
  assumes "resolvers st = []"
  shows "onmessage d st = (Some TypeError, st) \<and> run (Reply d # evs) st = (Some TypeError, st)"
proof -
  have "onmessage d st = (Some TypeError, st)"
    using assms by (cases d) (simp_all add: onmessage_def)
  then show ?thesis by simp
qed

theorem reply_on_empty_queue_witness:
  "resolvers init = []
   \<and> onmessage (JObj [(''value'', JNum 1)]) init = (Some TypeError, init)
   \<and> run [Reply (JObj [(''value'', JNum 1)]), Call (JStr ''X'')] init = (Some TypeError, init)"
proof -
  have e: "resolvers init = []"
    by (simp add: init_def)
  show ?thesis
    using reply_on_empty_queue [OF e, of "JObj [(''value'', JNum 1)]" "[Call (JStr ''X'')]"] e
    by simp
qed

text \<open>
  C5 (exactly one settlement, no cross-talk). In a well-behaved run the promise returned by
  the \<open>i\<close>-th call is pending until the \<open>i\<close>-th reply has been processed and from then on
  holds the outcome of that reply, fulfilled or rejected. A settled promise keeps its
  state in every continuation of the run. Processing a reply leaves the promise \<open>p\<close> and
  the returned promise of every call other than the one it answers as they were.
\<close>

theorem exactly_one_settlement:
  "(well_behaved evs \<and> i < length (calls evs) \<longrightarrow>
      handles (snd (run evs init)) i =
        (if i < resumes evs then Some (outcome_of (replies evs ! i)) else Some Pending)
    \<and> (i < resumes evs \<longrightarrow> outcome_of (replies evs ! i) \<noteq> Pending))
   \<and> (well_behaved (evs @ evs') \<and> handles (snd (run evs init)) i = Some out \<and> out \<noteq> Pending \<longrightarrow>
      handles (snd (run (evs @ evs') init)) i = Some out)
   \<and> (well_behaved (evs @ [Reply d, Resume]) \<and> j \<noteq> length (replies evs) \<longrightarrow>
      promises (snd (run (evs @ [Reply d, Resume]) init)) j = promises (snd (run evs init)) j
    \<and> handles (snd (run (evs @ [Reply d, Resume]) init)) j = handles (snd (run evs init)) j)"
proof (intro conjI impI)
  assume a: "well_behaved evs \<and> i < length (calls evs)"
  then have s: "sequenced (calls evs) (replies evs) (resumes evs) (snd (run evs init))"
    by (simp add: well_behaved_sequenced(2))
  show "handles (snd (run evs init)) i =
      (if i < resumes evs then Some (outcome_of (replies evs ! i)) else Some Pending)"
    using s a by (simp add: sequenced_def)
  assume "i < resumes evs"
  then have "i < length (replies evs)" "\<forall>d \<in> set (replies evs). \<not> nullish d"
    using s by (auto simp: sequenced_def)
  then show "outcome_of (replies evs ! i) \<noteq> Pending"
    by (simp add: outcome_of_settled)
next
  assume a: "well_behaved (evs @ evs') \<and> handles (snd (run evs init)) i = Some out \<and> out \<noteq> Pending"
  then have s: "sequenced (calls evs) (replies evs) (resumes evs) (snd (run evs init))"
    using well_behaved_prefix well_behaved_sequenced(2) by blast
  have t: "sequenced (calls evs @ calls evs') (replies evs @ replies evs')
      (resumes evs + resumes evs') (snd (run (evs @ evs') init))"
    using a well_behaved_sequenced(2) [of "evs @ evs'"]
    by (simp add: calls_append replies_append resumes_append)
  have i: "i < resumes evs"
    using s a by (auto simp: sequenced_def split: if_splits)
  then have l: "i < length (replies evs)"
    using s by (simp add: sequenced_def)
  have "handles (snd (run evs init)) i = Some (outcome_of (replies evs ! i))"
    using s i by (simp add: sequenced_def)
  moreover have "handles (snd (run (evs @ evs') init)) i = Some (outcome_of (replies evs ! i))"
    using t i l by (simp add: sequenced_def nth_append)
  ultimately show "handles (snd (run (evs @ evs') init)) i = Some out"
    using a by simp
next
  assume a: "well_behaved (evs @ [Reply d, Resume]) \<and> j \<noteq> length (replies evs)"
  then have s: "sequenced (calls evs) (replies evs) (resumes evs) (snd (run evs init))"
    using well_behaved_prefix well_behaved_sequenced(2) by blast
  have t: "sequenced (calls evs) (replies evs @ [d]) (Suc (resumes evs))
      (snd (run (evs @ [Reply d, Resume]) init))"
    using a well_behaved_sequenced(2) [of "evs @ [Reply d, Resume]"]
    by (simp add: calls_append replies_append resumes_append)
  have k: "length (replies evs) = resumes evs"
    using a by (simp add: well_behaved_def protocol_append)
  show "promises (snd (run (evs @ [Reply d, Resume]) init)) j = promises (snd (run evs init)) j"
    using s t a k by (auto simp: sequenced_def nth_append)
  show "handles (snd (run (evs @ [Reply d, Resume]) init)) j = handles (snd (run evs init)) j"
    using s t a k by (auto simp: sequenced_def nth_append)
qed

theorem exactly_one_settlement_witness:
  "handles (snd (run [Call (JStr ''X''), Call (JStr ''Y''), Reply (JObj [(''value'', JNum 1)]),
       Resume] init)) 0 = Some (Fulfilled (JNum 1))
   \<and> handles (snd (run [Call (JStr ''X''), Call (JStr ''Y''), Reply (JObj [(''value'', JNum 1)]),
       Resume] init)) 1 = Some Pending
   \<and> handles (snd (run ([Call (JStr ''X''), Call (JStr ''Y''), Reply (JObj [(''value'', JNum 1)]),
       Resume] @ [Reply (JObj [(''err'', JStr ''E'')]), Resume]) init)) 0 = Some (Fulfilled (JNum 1))
   \<and> promises (snd (run ([Call (JStr ''X''), Call (JStr ''Y''), Reply (JObj [(''value'', JNum 1)]),
       Resume] @ [Reply (JObj [(''err'', JStr ''E'')]), Resume]) init)) 0
     = promises (snd (run [Call (JStr ''X''), Call (JStr ''Y''), Reply (JObj [(''value'', JNum 1)]),
       Resume] init)) 0"
proof -
  let ?evs = "[Call (JStr ''X''), Call (JStr ''Y''), Reply (JObj [(''value'', JNum 1)]), Resume]"
  let ?d = "JObj [(''err'', JStr ''E'')]"
  have wb: "well_behaved ?evs" "well_behaved (?evs @ [Reply ?d, Resume])"
    by (simp_all add: well_behaved_def)
  have i: "0 < length (calls ?evs)" "1 < length (calls ?evs)" "(0::nat) \<noteq> length (replies ?evs)"
    by simp_all
  have o: "outcome_of (replies ?evs ! 0) = Fulfilled (JNum 1)"
    by (simp add: outcome_of_def)
  have h: "handles (snd (run ?evs init)) 0 = Some (Fulfilled (JNum 1))"
    using exactly_one_settlement [of ?evs 0 "[]" Pending JNull 1] wb(1) i o by simp
  have p: "handles (snd (run ?evs init)) 1 = Some Pending"
    using exactly_one_settlement [of ?evs 1 "[]" Pending JNull 1] wb(1) i by simp
  have q: "handles (snd (run (?evs @ [Reply ?d, Resume]) init)) 0 = Some (Fulfilled (JNum 1))"
    using exactly_one_settlement [of ?evs 0 "[Reply ?d, Resume]" "Fulfilled (JNum 1)" ?d 0] wb i h
    by simp
  have c: "promises (snd (run (?evs @ [Reply ?d, Resume]) init)) 0 = promises (snd (run ?evs init)) 0"
    using exactly_one_settlement [of ?evs 0 "[Reply ?d, Resume]" "Fulfilled (JNum 1)" ?d 0] wb i h
    by simp
  show ?thesis using h p q c by simp
qed

text \<open>
  C6 (no synchronous failure). \<^verbatim>\<open>toWorker\<close> is an async function: whatever its body
  threw before the \<^verbatim>\<open>await\<close> would reach the caller as a returned promise that is
  already rejected. For every payload and in every state the returned promise is pending,
  and after any well-behaved run the call ends without an exception and returns a promise
  no earlier call holds. Failures travel through that promise and nowhere else: the run
  itself never throws, the promise of the \<open>i\<close>-th call is rejected with \<open>e\<close> whenever
  the processed reply to that call carries the truthy \<^verbatim>\<open>err\<close> property \<open>e\<close>, and a
  promise is rejected with \<open>e\<close> only then.
\<close>

theorem no_synchronous_failure:
  "handles (snd (toWorker m st)) (fst (toWorker m st)) = Some Pending
   \<and> (well_behaved evs \<longrightarrow>
        fst (run evs init) = None
      \<and> fst (run (evs @ [Call m]) init) = None
      \<and> handles (snd (run evs init)) (fst (toWorker m (snd (run evs init)))) = None
      \<and> handles_returned (evs @ [Call m]) init
          = handles_returned evs init @ [fst (toWorker m (snd (run evs init)))])
   \<and> (well_behaved evs \<and> i < resumes evs
        \<and> getprop (replies evs ! i) ''err'' = Inr e \<and> truthy e \<longrightarrow>
        handles (snd (run evs init)) (handles_returned evs init ! i) = Some (Rejected e))
   \<and> (well_behaved evs \<and> i < length (calls evs)
        \<and> handles (snd (run evs init)) (handles_returned evs init ! i) = Some (Rejected e) \<longrightarrow>
        i < resumes evs \<and> getprop (replies evs ! i) ''err'' = Inr e \<and> truthy e)"
proof (intro conjI impI)
  show "handles (snd (toWorker m st)) (fst (toWorker m st)) = Some Pending"
    by (simp add: toWorker_def Let_def postMessage_def)
next
  assume wb: "well_behaved evs"
  then have wc: "well_behaved (evs @ [Call m])"
    by (simp add: well_behaved_def protocol_append)
  show "fst (run evs init) = None"
    by (rule well_behaved_sequenced(1) [OF wb])
  show "fst (run (evs @ [Call m]) init) = None"
    by (rule well_behaved_sequenced(1) [OF wc])
  have s: "sequenced (calls evs) (replies evs) (resumes evs) (snd (run evs init))"
    by (rule well_behaved_sequenced(2) [OF wb])
  have f: "fst (toWorker m (snd (run evs init))) = length (calls evs)"
    using s by (simp add: toWorker_def Let_def sequenced_def)
  show "handles (snd (run evs init)) (fst (toWorker m (snd (run evs init)))) = None"
    using s by (simp add: f sequenced_def)
  show "handles_returned (evs @ [Call m]) init
      = handles_returned evs init @ [fst (toWorker m (snd (run evs init)))]"
    by (simp add: f well_behaved_handles_returned [OF wb] well_behaved_handles_returned [OF wc]
        calls_append)
next
  assume a: "well_behaved evs \<and> i < resumes evs
      \<and> getprop (replies evs ! i) ''err'' = Inr e \<and> truthy e"
  then have s: "sequenced (calls evs) (replies evs) (resumes evs) (snd (run evs init))"
    by (simp add: well_behaved_sequenced(2))
  have "i < length (calls evs)"
    using s a by (auto simp: sequenced_def)
  then have "handles_returned evs init ! i = i"
    using a by (simp add: well_behaved_handles_returned)
  moreover have "handles (snd (run evs init)) i = Some (outcome_of (replies evs ! i))"
    using s a by (simp add: sequenced_def)
  ultimately show "handles (snd (run evs init)) (handles_returned evs init ! i) = Some (Rejected e)"
    using a by (simp add: outcome_of_err)
next
  assume a: "well_behaved evs \<and> i < length (calls evs)
      \<and> handles (snd (run evs init)) (handles_returned evs init ! i) = Some (Rejected e)"
  then have s: "sequenced (calls evs) (replies evs) (resumes evs) (snd (run evs init))"
    by (simp add: well_behaved_sequenced(2))
  have h: "handles_returned evs init ! i = i"
    using a by (simp add: well_behaved_handles_returned)
  show i: "i < resumes evs"
    using s a h by (auto simp: sequenced_def split: if_splits)
  have "outcome_of (replies evs ! i) = Rejected e"
    using s a h i by (simp add: sequenced_def)
  then show "getprop (replies evs ! i) ''err'' = Inr e" "truthy e"
    using outcome_of_Rejected by blast+
qed


theorem no_synchronous_failure_witness:
  "well_behaved [Call (JStr ''X''), Call (JStr ''Y''), Reply (JObj [(''value'', JNum 1)]), Resume,
      Reply (JObj [(''err'', JStr ''E1'')]), Resume]
   \<and> getprop (replies [Call (JStr ''X''), Call (JStr ''Y''), Reply (JObj [(''value'', JNum 1)]),
        Resume, Reply (JObj [(''err'', JStr ''E1'')]), Resume] ! 1) ''err'' = Inr (JStr ''E1'')
   \<and> truthy (JStr ''E1'')
   \<and> handles (snd (run [Call (JStr ''X''), Call (JStr ''Y''), Reply (JObj [(''value'', JNum 1)]),
        Resume, Reply (JObj [(''err'', JStr ''E1'')]), Resume] init)) 1
       = Some (Rejected (JStr ''E1''))
   \<and> fst (run ([Call (JStr ''X''), Call (JStr ''Y''), Reply (JObj [(''value'', JNum 1)]),
        Resume, Reply (JObj [(''err'', JStr ''E1'')]), Resume] @ [Call (JStr ''Z'')]) init) = None"
proof -
  let ?evs = "[Call (JStr ''X''), Call (JStr ''Y''), Reply (JObj [(''value'', JNum 1)]), Resume,
      Reply (JObj [(''err'', JStr ''E1'')]), Resume]"
  have wb: "well_behaved ?evs"
    by (simp add: well_behaved_def)
  have i: "1 < resumes ?evs" "1 < length (calls ?evs)"
    by simp_all
  have g: "getprop (replies ?evs ! 1) ''err'' = Inr (JStr ''E1'')" "truthy (JStr ''E1'')"
    by simp_all
  have h: "handles_returned ?evs init ! 1 = 1"
    by (simp add: exec_defs)
  have r: "handles (snd (run ?evs init)) 1 = Some (Rejected (JStr ''E1''))"
    using no_synchronous_failure [of "JStr ''Z''" init ?evs 1 "JStr ''E1''"] wb i g h by simp
  have b: "1 < resumes ?evs \<and> getprop (replies ?evs ! 1) ''err'' = Inr (JStr ''E1'')
      \<and> truthy (JStr ''E1'')"
    using no_synchronous_failure [of "JStr ''Z''" init ?evs 1 "JStr ''E1''"] wb i h r by simp
  have c: "fst (run (?evs @ [Call (JStr ''Z'')]) init) = None"
    using no_synchronous_failure [of "JStr ''Z''" init ?evs 1 "JStr ''E1''"] wb by blast
  show ?thesis using wb g r c by simp
qed

text \<open>
  C7 (fire-and-forget). \<^verbatim>\<open>endOfRequest\<close> appends its message to the posted messages and
  changes nothing else: no resolver, no promise and no continuation is created, and the
  function is not asynchronous, so it returns without waiting for anything.
\<close>

theorem endOfRequest_bypasses_queue:
  "posted (endOfRequest n st) = posted st @ [JObj [(''cmd'', JStr ''endOfRequest''), (''id'', JNum n)]]
   \<and> resolvers (endOfRequest n st) = resolvers st
   \<and> promises (endOfRequest n st) = promises st
   \<and> handles (endOfRequest n st) = handles st
   \<and> jobs (endOfRequest n st) = jobs st
   \<and> next_id (endOfRequest n st) = next_id st"
  by (simp add: endOfRequest_def postMessage_def)

text \<open>
  C8 (channel errors). \<^verbatim>\<open>onerror\<close> and \<^verbatim>\<open>onmessageerror\<close> throw the event they are
  given and leave the state, with every pending call, as it was.
\<close>

theorem channel_errors_rethrown:
  "onerror e st = (Some (Thrown e), st) \<and> onmessageerror e st = (Some (Thrown e), st)"
  by (simp add: onerror_def onmessageerror_def)

text \<open>
  C9 (two-phase body read). When \<^verbatim>\<open>callHandler\<close> returns an object for the value
  \<open>res\<close> of its reply, the first invocation of \<^verbatim>\<open>read\<close> returns \<^verbatim>\<open>res.body\<close> and every
  later invocation returns \<^verbatim>\<open>undefined\<close>.
\<close>

theorem two_phase_read:
  assumes "callHandler_resume res = Inr r"
  shows "getprop res ''body'' = Inr (read_nth 0 r) \<and> (\<forall>n. read_nth (Suc n) r = JUndefined)"
proof -
  have "getprop res ''body'' = Inr (body r)"
    using assms by (auto simp: callHandler_resume_def split: sum.splits)
  moreover have "\<forall>n. read_nth (Suc n) r = JUndefined"
    by (simp add: read_after_first read_def)
  ultimately show ?thesis by (simp add: read_def)
qed

theorem two_phase_read_witness:
  "callHandler_resume (JObj [(''body'', JNum 7), (''status'', JNum 200), (''headers'', JNum 3)])
      = Inr \<lparr>status = JNum 200, headers = JNum 3, body = JNum 7\<rparr>
   \<and> read_nth 0 \<lparr>status = JNum 200, headers = JNum 3, body = JNum 7\<rparr> = JNum 7
   \<and> read_nth 1 \<lparr>status = JNum 200, headers = JNum 3, body = JNum 7\<rparr> = JUndefined
   \<and> read_nth 2 \<lparr>status = JNum 200, headers = JNum 3, body = JNum 7\<rparr> = JUndefined"
proof -
  let ?res = "JObj [(''body'', JNum 7), (''status'', JNum 200), (''headers'', JNum 3)]"
  have c: "callHandler_resume ?res = Inr \<lparr>status = JNum 200, headers = JNum 3, body = JNum 7\<rparr>"
    by (simp add: callHandler_resume_def)
  have one: "(1::nat) = Suc 0" and two: "(2::nat) = Suc (Suc 0)"
    by simp_all
  show ?thesis
    using two_phase_read [OF c] c unfolding one two by simp
qed

text \<open>
  C10 (truthiness decides). A reply object whose \<^verbatim>\<open>err\<close> property is present and falsy,
  delivered in a state a well-behaved run has reached with the resolver \<open>r\<close> at the head of
  the array and no continuation left to run, fulfils the promise of \<open>r\<close> and the returned
  promise with the \<^verbatim>\<open>value\<close> property; nothing is rejected.
\<close>

theorem truthiness_discriminator:
  assumes "well_behaved evs" and "snd (run evs init) = st"
    and "resolvers st = r # q" and "jobs st = []"
    and "map_of fs ''err'' = Some e" and "\<not> truthy e"
  shows "fst (onmessage (JObj fs) st) = None
    \<and> promises (snd (onmessage (JObj fs) st)) (rid r)
        = Some (Fulfilled (case map_of fs ''value'' of None \<Rightarrow> JUndefined | Some v \<Rightarrow> v))
    \<and> handles (run_job (snd (onmessage (JObj fs) st))) (rid r)
        = Some (Fulfilled (case map_of fs ''value'' of None \<Rightarrow> JUndefined | Some v \<Rightarrow> v))"
proof -
  have n: "\<not> nullish (JObj fs)" by simp
  have "outcome_of (JObj fs)
      = Fulfilled (case map_of fs ''value'' of None \<Rightarrow> JUndefined | Some v \<Rightarrow> v)"
    using assms(5) assms(6) by (simp add: outcome_of_def)
  then show ?thesis
    using reply_to_head [OF assms(1) assms(2) assms(3) assms(4) n] by simp
qed

theorem truthiness_discriminator_witness:
  "promises (snd (onmessage (JObj [(''err'', JNum 0), (''value'', JNum 5)])
       (snd (run [Call (JStr ''X'')] init)))) 0 = Some (Fulfilled (JNum 5))
   \<and> promises (snd (onmessage (JObj [(''err'', JStr []), (''value'', JNum 5)])
       (snd (run [Call (JStr ''X'')] init)))) 0 = Some (Fulfilled (JNum 5))
   \<and> promises (snd (onmessage (JObj [(''err'', JNull), (''value'', JNum 5)])
       (snd (run [Call (JStr ''X'')] init)))) 0 = Some (Fulfilled (JNum 5))
   \<and> promises (snd (onmessage (JObj [(''err'', JBool False), (''value'', JNum 5)])
       (snd (run [Call (JStr ''X'')] init)))) 0 = Some (Fulfilled (JNum 5))"
proof -
  let ?st = "snd (run [Call (JStr ''X'')] init)"
  have wb: "well_behaved [Call (JStr ''X'')]"
    by (simp add: well_behaved_def)
  have r: "resolvers ?st = \<lparr>rid = 0, msg = JStr ''X''\<rparr> # []"
    by (simp add: toWorker_def init_def Let_def postMessage_def)
  have j: "jobs ?st = []"
    by (simp add: toWorker_def init_def Let_def postMessage_def)
  note t = truthiness_discriminator [OF wb refl r j]
  show ?thesis
    using t [of "[(''err'', JNum 0), (''value'', JNum 5)]" "JNum 0"]
      t [of "[(''err'', JStr []), (''value'', JNum 5)]" "JStr []"]
      t [of "[(''err'', JNull), (''value'', JNum 5)]" JNull]
      t [of "[(''err'', JBool False), (''value'', JNum 5)]" "JBool False"]
    by simp
qed

end
